theory Spec2Isabelle
  imports Main
begin

section \<open>Data model\<close>

text \<open>
  The values thrown by the code: the rejection of a page request (whatever the GraphQL
  client raises, carried with its message), and the two built-in JavaScript exceptions the
  aggregation can raise.
\<close>

datatype error = RequestFailed string | TypeError | SyntaxError

text \<open>
  The records of the query \<open>GetChannelPayments\<close>. The field \<open>id\<close> of a channel and of
  a payment event are named \<open>channel_id\<close> and \<open>payment_id\<close>. A channel's title and an
  event's channel are nullable.
\<close>

record channel =
  channel_id :: string
  title :: "string option"

record payment =
  payment_id :: string
  amount :: string
  createdAt :: string
  inBlock :: int
  payeeChannel :: "channel option"
  rationale :: string

record response =
  channelPaymentMadeEvents :: "payment list"

section \<open>The pagination fetcher\<close>

text \<open>
  \<open>request(url, document, {limit, offset})\<close> is the data source: it answers a page
  request with a response or raises. The loop asks for each offset once, in increasing
  order, so a source is a function of the request's variables.
\<close>

type_synonym source = "nat \<Rightarrow> nat \<Rightarrow> error + response"

definition limit :: nat where
  "limit = 5000"

text \<open>
  The body of \<open>while (true)\<close> in \<open>fetchPayments\<close>. The loop has no bound, so not
  returning is the value \<open>None\<close>. Besides the outcome (the raised error or the returned
  \<open>allPayments\<close>) the model returns the offsets of the requests it sent, in order.
\<close>

partial_function (option) fetchLoop ::
  "source \<Rightarrow> payment list \<Rightarrow> nat \<Rightarrow> nat list \<Rightarrow> (nat list \<times> (error + payment list)) option"
where
  "fetchLoop src allPayments offset sent =
     (case src limit offset of
        Inl e \<Rightarrow> Some (sent @ [offset], Inl e)
      | Inr response \<Rightarrow>
          (let newPayments = channelPaymentMadeEvents response;
               allPayments' = allPayments @ newPayments
           in if length newPayments < limit
              then Some (sent @ [offset], Inr allPayments')
              else fetchLoop src allPayments' (offset + limit) (sent @ [offset])))"

definition fetchPayments :: "source \<Rightarrow> (nat list \<times> (error + payment list)) option" where
  "fetchPayments src = fetchLoop src [] 0 []"

text \<open>
  What one request does to the loop. At \<open>offset\<close> the loop goes on (\<open>advances\<close>) when
  the request succeeds with a page that is not shorter than \<open>limit\<close>; it stops when the
  request raises (\<open>failsAt\<close>) or the page is shorter (\<open>shortPageAt\<close>).
\<close>

definition advances :: "source \<Rightarrow> nat \<Rightarrow> bool" where
  "advances src offset =
     (case src limit offset of
        Inl e \<Rightarrow> False
      | Inr response \<Rightarrow> \<not> length (channelPaymentMadeEvents response) < limit)"

definition shortPageAt :: "source \<Rightarrow> nat \<Rightarrow> bool" where
  "shortPageAt src offset =
     (case src limit offset of
        Inl e \<Rightarrow> False
      | Inr response \<Rightarrow> length (channelPaymentMadeEvents response) < limit)"

definition failsAt :: "source \<Rightarrow> nat \<Rightarrow> bool" where
  "failsAt src offset = (case src limit offset of Inl e \<Rightarrow> True | Inr response \<Rightarrow> False)"

definition fullPageAt :: "source \<Rightarrow> nat \<Rightarrow> bool" where
  "fullPageAt src offset =
     (case src limit offset of
        Inl e \<Rightarrow> False
      | Inr response \<Rightarrow> length (channelPaymentMadeEvents response) = limit)"

definition pageAt :: "source \<Rightarrow> nat \<Rightarrow> payment list" where
  "pageAt src offset =
     (case src limit offset of Inl e \<Rightarrow> [] | Inr response \<Rightarrow> channelPaymentMadeEvents response)"

definition outcomeAt :: "source \<Rightarrow> payment list \<Rightarrow> nat \<Rightarrow> error + payment list" where
  "outcomeAt src allPayments offset =
     (case src limit offset of
        Inl e \<Rightarrow> Inl e
      | Inr response \<Rightarrow> Inr (allPayments @ channelPaymentMadeEvents response))"

text \<open>Fixtures: a payment event, and four data sources used as concrete inputs.\<close>

definition somePayment :: payment where
  "somePayment =
     \<lparr>payment_id = ''1'', amount = ''10000000000'', createdAt = ''2024-01-01T00:00:00.000Z'',
      inBlock = 1, payeeChannel = Some \<lparr>channel_id = ''7'', title = Some ''A channel''\<rparr>,
      rationale = []\<rparr>"

text \<open>A source that serves the given pages at offsets 0, 5000, 10000, ... and nothing after.\<close>

definition pagedSource :: "payment list list \<Rightarrow> source" where
  "pagedSource pages lim offset =
     (if offset mod lim = 0 \<and> offset div lim < length pages
      then Inr \<lparr>channelPaymentMadeEvents = pages ! (offset div lim)\<rparr>
      else Inr \<lparr>channelPaymentMadeEvents = []\<rparr>)"

text \<open>A source whose every request is rejected.\<close>

definition failingSource :: source where
  "failingSource lim offset = Inl (RequestFailed ''Network request failed'')"

text \<open>A source that answers every request with a page of exactly \<open>lim\<close> events.\<close>

definition endlessSource :: source where
  "endlessSource lim offset = Inr \<lparr>channelPaymentMadeEvents = replicate lim somePayment\<rparr>"

text \<open>A source that serves one full page and rejects the second request.\<close>

definition brokenSource :: source where
  "brokenSource lim offset =
     (if offset = 0 then Inr \<lparr>channelPaymentMadeEvents = replicate lim somePayment\<rparr>
      else Inl (RequestFailed ''Network request failed''))"

section \<open>The aggregator\<close>

subsection \<open>\<open>BigInt(string)\<close>\<close>

text \<open>
  \<open>BigInt\<close> applied to a string parses it as the language defines (StringToBigInt): white
  space at both ends is dropped; the empty string is 0; otherwise the text is an optional
  sign and decimal digits, or \<open>0x\<close>, \<open>0o\<close>, \<open>0b\<close> (either case) and digits of that radix;
  anything else raises SyntaxError. The result is an unbounded integer. A character here
  is a code unit below 256, so the white space that can occur is that of ASCII (tab, line
  feed, vertical tab, form feed, carriage return, space) and the no-break space U+00A0.
\<close>

definition isWhiteSpace :: "char \<Rightarrow> bool" where
  "isWhiteSpace c = (of_char c \<in> {9, 10, 11, 12, 13, 32, 160 :: nat})"

definition trim :: "string \<Rightarrow> string" where
  "trim s = rev (dropWhile isWhiteSpace (rev (dropWhile isWhiteSpace s)))"

definition digitOf :: "char \<Rightarrow> nat option" where
  "digitOf c =
     (let n = of_char c :: nat
      in if 48 \<le> n \<and> n \<le> 57 then Some (n - 48)
         else if 97 \<le> n \<and> n \<le> 102 then Some (n - 87)
         else if 65 \<le> n \<and> n \<le> 70 then Some (n - 55)
         else None)"

definition isDigitOf :: "nat \<Rightarrow> char \<Rightarrow> bool" where
  "isDigitOf radix c = (case digitOf c of None \<Rightarrow> False | Some d \<Rightarrow> d < radix)"

definition digitsValue :: "nat \<Rightarrow> string \<Rightarrow> int" where
  "digitsValue radix s =
     foldl (\<lambda>a c. a * int radix + (case digitOf c of None \<Rightarrow> 0 | Some d \<Rightarrow> int d)) 0 s"

definition parseDigits :: "nat \<Rightarrow> string \<Rightarrow> error + int" where
  "parseDigits radix s =
     (if s \<noteq> [] \<and> list_all (isDigitOf radix) s then Inr (digitsValue radix s)
      else Inl SyntaxError)"

definition negate :: "error + int \<Rightarrow> error + int" where
  "negate r = (case r of Inl e \<Rightarrow> Inl e | Inr n \<Rightarrow> Inr (- n))"

fun parseIntegerLiteral :: "string \<Rightarrow> error + int" where
  "parseIntegerLiteral [] = Inr 0"
| "parseIntegerLiteral [c] = parseDigits 10 [c]"
| "parseIntegerLiteral (c # d # s) =
     (if c = CHR ''0'' \<and> (d = CHR ''x'' \<or> d = CHR ''X'') then parseDigits 16 s
      else if c = CHR ''0'' \<and> (d = CHR ''o'' \<or> d = CHR ''O'') then parseDigits 8 s
      else if c = CHR ''0'' \<and> (d = CHR ''b'' \<or> d = CHR ''B'') then parseDigits 2 s
      else if c = CHR ''-'' then negate (parseDigits 10 (d # s))
      else if c = CHR ''+'' then parseDigits 10 (d # s)
      else parseDigits 10 (c # d # s))"

definition BigInt :: "string \<Rightarrow> error + int" where
  "BigInt raw = parseIntegerLiteral (trim raw)"

subsection \<open>The accumulator object\<close>

text \<open>
  The accumulator of the reduction is an ordinary object created by \<open>{}\<close>: its own
  properties in creation order, and the properties it inherits from \<open>Object.prototype\<close>.
\<close>

type_synonym 'v object = "(string \<times> 'v) list"

definition objectPrototypeKeys :: "string list" where
  "objectPrototypeKeys =
     [''constructor'', ''__defineGetter__'', ''__defineSetter__'', ''hasOwnProperty'',
      ''__lookupGetter__'', ''__lookupSetter__'', ''isPrototypeOf'', ''propertyIsEnumerable'',
      ''toString'', ''valueOf'', ''__proto__'', ''toLocaleString'']"

text \<open>
  Reading \<open>acc[key]\<close>: the own property, else an inherited one (a function, or the
  prototype itself for \<open>__proto__\<close>: truthy, and without a \<open>totalAmount\<close>), else
  \<open>undefined\<close>.
\<close>

datatype 'v property = Own 'v | Inherited | Undefined

definition getProperty :: "'v object \<Rightarrow> string \<Rightarrow> 'v property" where
  "getProperty obj key =
     (case map_of obj key of
        Some v \<Rightarrow> Own v
      | None \<Rightarrow> if key \<in> set objectPrototypeKeys then Inherited else Undefined)"

text \<open>
  Writing an own property: an existing one keeps its place, a new one is created last.
\<close>

fun setProperty :: "'v object \<Rightarrow> string \<Rightarrow> 'v \<Rightarrow> 'v object" where
  "setProperty [] key v = [(key, v)]"
| "setProperty ((k, w) # obj) key v =
     (if k = key then (k, v) # obj else (k, w) # setProperty obj key v)"

text \<open>
  \<open>Object.values\<close> lists the own properties in the order of the language: the keys that
  are array indices (canonical decimal numerals up to \<open>2^32 - 2\<close>) in ascending numeric
  order, then the other keys in creation order.
\<close>

definition isArrayIndex :: "string \<Rightarrow> bool" where
  "isArrayIndex key =
     (key \<noteq> [] \<and> list_all (isDigitOf 10) key \<and> (key = ''0'' \<or> hd key \<noteq> CHR ''0'') \<and>
      digitsValue 10 key \<le> 4294967294)"

definition ownEntries :: "'v object \<Rightarrow> (string \<times> 'v) list" where
  "ownEntries obj =
     sort_key (\<lambda>(k, v). digitsValue 10 k) (filter (\<lambda>(k, v). isArrayIndex k) obj) @
     filter (\<lambda>(k, v). \<not> isArrayIndex k) obj"

definition Object_values :: "'v object \<Rightarrow> 'v list" where
  "Object_values obj = map snd (ownEntries obj)"

subsection \<open>\<open>groupedPayments\<close>\<close>

record channelAggregate =
  channelId :: string
  channelTitle :: string
  totalAmount :: int
  count :: nat

text \<open>\<open>title || "Unknown"\<close>: a null and an empty title are both falsy.\<close>

definition titleOrUnknown :: "string option \<Rightarrow> string" where
  "titleOrUnknown t = (case t of None \<Rightarrow> ''Unknown'' | Some s \<Rightarrow> if s = [] then ''Unknown'' else s)"

text \<open>
  The callback of \<open>payments.reduce\<close>. Reading \<open>.id\<close> of a null channel raises TypeError
  (the non-null assertion is erased at run time). \<open>!acc[channelId]\<close> holds only when the
  key is neither an own nor an inherited property. \<open>BigInt(payment.amount)\<close> raises
  SyntaxError on a malformed amount. Under an inherited key \<open>acc[channelId].totalAmount\<close> is
  \<open>undefined\<close>, and adding a BigInt to it raises TypeError.
\<close>

definition reducer :: "channelAggregate object \<Rightarrow> payment \<Rightarrow> error + channelAggregate object" where
  "reducer acc payment =
     (case payeeChannel payment of
        None \<Rightarrow> Inl TypeError
      | Some ch \<Rightarrow>
          (let channelId = channel_id ch;
               acc1 = (if getProperty acc channelId = Undefined
                       then setProperty acc channelId
                              \<lparr>channelId = channelId,
                               channelTitle = titleOrUnknown (title ch),
                               totalAmount = 0,
                               count = 0\<rparr>
                       else acc)
           in case BigInt (amount payment) of
                Inl e \<Rightarrow> Inl e
              | Inr n \<Rightarrow>
                  (case getProperty acc1 channelId of
                     Own a \<Rightarrow>
                       Inr (setProperty acc1 channelId
                              (a\<lparr>totalAmount := totalAmount a + n, count := count a + 1\<rparr>))
                   | Inherited \<Rightarrow> Inl TypeError
                   | Undefined \<Rightarrow> Inl TypeError)))"

text \<open>\<open>Array.prototype.reduce\<close> with an initial value and a callback that may raise.\<close>

fun reduce :: "('b \<Rightarrow> 'a \<Rightarrow> error + 'b) \<Rightarrow> 'a list \<Rightarrow> 'b \<Rightarrow> error + 'b" where
  "reduce f [] acc = Inr acc"
| "reduce f (x # xs) acc = (case f acc x of Inl e \<Rightarrow> Inl e | Inr acc' \<Rightarrow> reduce f xs acc')"

text \<open>\<open>payments\<close> is \<open>undefined\<close> (here \<open>None\<close>) until the query has data.\<close>

definition groupedPayments :: "payment list option \<Rightarrow> error + channelAggregate list" where
  "groupedPayments payments =
     (case payments of
        None \<Rightarrow> Inr []
      | Some ps \<Rightarrow>
          (case reduce reducer ps [] of
             Inl e \<Rightarrow> Inl e
           | Inr acc \<Rightarrow> Inr (Object_values acc)))"

text \<open>
  The terms in which the claims speak of the input: the group key of an event, the amount
  it stands for, and the keys of a collection in order of first occurrence.
\<close>

definition groupKey :: "payment \<Rightarrow> string" where
  "groupKey p = (case payeeChannel p of None \<Rightarrow> [] | Some ch \<Rightarrow> channel_id ch)"

definition amountOf :: "payment \<Rightarrow> int" where
  "amountOf p = (case BigInt (amount p) of Inl e \<Rightarrow> 0 | Inr n \<Rightarrow> n)"

definition titleOf :: "payment \<Rightarrow> string" where
  "titleOf p = (case payeeChannel p of None \<Rightarrow> ''Unknown'' | Some ch \<Rightarrow> titleOrUnknown (title ch))"

fun firstOccurrences :: "'a list \<Rightarrow> 'a list" where
  "firstOccurrences [] = []"
| "firstOccurrences (x # xs) = x # filter (\<lambda>y. y \<noteq> x) (firstOccurrences xs)"

text \<open>
  What the aggregation should hold for a group key: the key, the title of the first event
  of that key, the sum of the amounts and the number of its events. \<open>groupsOf\<close> is the
  accumulator object that the reduction is shown to build.
\<close>

definition aggregateOf :: "payment list \<Rightarrow> string \<Rightarrow> channelAggregate" where
  "aggregateOf ps k =
     \<lparr>channelId = k,
      channelTitle = (case find (\<lambda>p. groupKey p = k) ps of None \<Rightarrow> ''Unknown'' | Some p \<Rightarrow> titleOf p),
      totalAmount = sum_list (map amountOf (filter (\<lambda>p. groupKey p = k) ps)),
      count = length (filter (\<lambda>p. groupKey p = k) ps)\<rparr>"

definition groupsOf :: "payment list \<Rightarrow> channelAggregate object" where
  "groupsOf ps = map (\<lambda>k. (k, aggregateOf ps k)) (firstOccurrences (map groupKey ps))"

text \<open>The order in which the own keys of an object are listed, given their creation order.\<close>

definition ownKeyOrder :: "string list \<Rightarrow> string list" where
  "ownKeyOrder ks =
     sort_key (digitsValue 10) (filter isArrayIndex ks) @ filter (\<lambda>k. \<not> isArrayIndex k) ks"

text \<open>An event that the callback accepts.\<close>

definition aggregable :: "payment \<Rightarrow> bool" where
  "aggregable p =
     (case payeeChannel p of
        None \<Rightarrow> False
      | Some ch \<Rightarrow>
          channel_id ch \<notin> set objectPrototypeKeys \<and>
          (case BigInt (amount p) of Inl e \<Rightarrow> False | Inr n \<Rightarrow> True))"

text \<open>Fixtures: events of channels "2" and "1", of a named channel, and of no channel.\<close>

definition paymentTo :: "string \<Rightarrow> string option \<Rightarrow> string \<Rightarrow> payment" where
  "paymentTo cid t amt =
     \<lparr>payment_id = ''e'', amount = amt, createdAt = [], inBlock = 0,
      payeeChannel = Some \<lparr>channel_id = cid, title = t\<rparr>, rationale = []\<rparr>"

definition orphanPayment :: payment where
  "orphanPayment =
     \<lparr>payment_id = ''e'', amount = ''5'', createdAt = [], inBlock = 0,
      payeeChannel = None, rationale = []\<rparr>"

definition sampleEvents :: "payment list" where
  "sampleEvents =
     [paymentTo ''2'' (Some ''two'') ''5'',
      paymentTo ''abc'' (Some []) ''18446744073709551616'',
      paymentTo ''1'' None ''7'',
      paymentTo ''2'' (Some ''zwei'') ''100'']"

definition sampleAggregates :: "channelAggregate list" where
  "sampleAggregates =
     [\<lparr>channelId = ''1'', channelTitle = ''Unknown'', totalAmount = 7, count = 1\<rparr>,
      \<lparr>channelId = ''2'', channelTitle = ''two'', totalAmount = 105, count = 2\<rparr>,
      \<lparr>channelId = ''abc'', channelTitle = ''Unknown'', totalAmount = 18446744073709551616,
       count = 1\<rparr>]"

section \<open>The amount formatter\<close>

text \<open>
  \<open>formatJoy\<close> reads the raw amount with \<open>BigInt\<close>, hands the pair of that integer and
  the number of decimals, 10, with the option \<open>digits = 2\<close> to the \<open>format\<close> function of
  a decimal-number package, and appends the currency. The package is not part of the
  repository: its \<open>format\<close> is a parameter here, and what it renders is left open.
\<close>

definition formatJoy :: "(int \<times> nat \<Rightarrow> nat \<Rightarrow> string) \<Rightarrow> string \<Rightarrow> error + string" where
  "formatJoy format raw =
     (case BigInt raw of
        Inl e \<Rightarrow> Inl e
      | Inr v \<Rightarrow> Inr (format (v, 10) 2 @ '' JOY''))"

section \<open>The table\<close>

text \<open>
  The two column sets of the table, chosen by \<open>groupByChannel\<close>, with the header and the
  accessor key of each column.
\<close>

record column =
  header :: string
  accessorKey :: string

definition columns :: "bool \<Rightarrow> column list" where
  "columns groupByChannel =
     (if groupByChannel
      then [\<lparr>header = ''Channel ID'', accessorKey = ''channelId''\<rparr>,
            \<lparr>header = ''Channel Title'', accessorKey = ''channelTitle''\<rparr>,
            \<lparr>header = ''Total Amount'', accessorKey = ''totalAmount''\<rparr>,
            \<lparr>header = ''Payment Count'', accessorKey = ''count''\<rparr>]
      else [\<lparr>header = ''ID'', accessorKey = ''id''\<rparr>,
            \<lparr>header = ''Channel ID'', accessorKey = ''payeeChannel.id''\<rparr>,
            \<lparr>header = ''Channel Title'', accessorKey = ''payeeChannel.title''\<rparr>,
            \<lparr>header = ''Amount'', accessorKey = ''amount''\<rparr>,
            \<lparr>header = ''Block'', accessorKey = ''inBlock''\<rparr>,
            \<lparr>header = ''Rationale'', accessorKey = ''rationale''\<rparr>])"

text \<open>
  \<open>initialState.sorting\<close> of \<open>useReactTable\<close>: the sort state of the table until the
  user clicks a header. It is the same list whatever \<open>groupByChannel\<close> is.
\<close>

record columnSort =
  sort_id :: string
  desc :: bool

definition initialSorting :: "columnSort list" where
  "initialSorting = [\<lparr>sort_id = ''totalAmount'', desc = True\<rparr>]"

text \<open>
  A column defined by an accessor key is known to the table under an id: the accessor key
  with its dots replaced by underscores. A sort entry names a column by that id.
\<close>

definition columnId :: "column \<Rightarrow> string" where
  "columnId c = map (\<lambda>ch. if ch = CHR ''.'' then CHR ''_'' else ch) (accessorKey c)"

text \<open>The columns of a mode that a sort state names, each with its direction.\<close>

definition sortedColumns :: "bool \<Rightarrow> columnSort list \<Rightarrow> (column \<times> bool) list" where
  "sortedColumns groupByChannel sorting =
     concat (map (\<lambda>s. map (\<lambda>c. (c, desc s))
                          (filter (\<lambda>c. columnId c = sort_id s) (columns groupByChannel)))
                 sorting)"

section \<open>Properties of the pagination fetcher\<close>

lemma fetchLoop_stop:
  "\<not> advances src offset \<Longrightarrow>
   fetchLoop src acc offset sent = Some (sent @ [offset], outcomeAt src acc offset)"
  by (subst fetchLoop.simps) (simp add: advances_def outcomeAt_def Let_def split: sum.splits)

lemma fetchLoop_step:
  "advances src offset \<Longrightarrow>
   fetchLoop src acc offset sent =
   fetchLoop src (acc @ pageAt src offset) (offset + limit) (sent @ [offset])"
  by (subst fetchLoop.simps) (simp add: advances_def pageAt_def Let_def split: sum.splits)

text \<open>After \<open>n\<close> pages that each let the loop go on, the loop is at offset \<open>n * limit\<close>.\<close>

lemma fetchLoop_advance:
  "(\<forall>k<n. advances src (offset + k * limit)) \<Longrightarrow>
   fetchLoop src acc offset sent =
   fetchLoop src (acc @ concat (map (\<lambda>k. pageAt src (offset + k * limit)) [0..<n]))
     (offset + n * limit) (sent @ map (\<lambda>k. offset + k * limit) [0..<n])"
proof (induction n)
  case 0
  then show ?case by simp
next
  case (Suc n)
  have adv: "advances src (offset + n * limit)" using Suc.prems by simp
  have "fetchLoop src acc offset sent =
     fetchLoop src (acc @ concat (map (\<lambda>k. pageAt src (offset + k * limit)) [0..<n]))
     (offset + n * limit) (sent @ map (\<lambda>k. offset + k * limit) [0..<n])"
    using Suc by simp
  also have "\<dots> =
     fetchLoop src (acc @ concat (map (\<lambda>k. pageAt src (offset + k * limit)) [0..<Suc n]))
     (offset + Suc n * limit) (sent @ map (\<lambda>k. offset + k * limit) [0..<Suc n])"
    by (subst fetchLoop_step [OF adv]) (simp add: ac_simps)
  finally show ?case .
qed

lemma fetchLoop_first_stop:
  assumes "\<not> advances src (offset + n * limit)" "\<forall>k<n. advances src (offset + k * limit)"
  shows "fetchLoop src acc offset sent =
         Some (sent @ map (\<lambda>k. offset + k * limit) [0..<Suc n],
               outcomeAt src (acc @ concat (map (\<lambda>k. pageAt src (offset + k * limit)) [0..<n]))
                 (offset + n * limit))"
  by (simp add: fetchLoop_advance [OF assms(2)] fetchLoop_stop [OF assms(1)])

text \<open>A loop that returns has met a request that stops it.\<close>

lemma fetchLoop_Some_stops:
  assumes "fetchLoop src acc offset sent = Some y"
  shows "\<exists>n. \<not> advances src (offset + n * limit)"
proof (rule fetchLoop.raw_induct
    [where P = "\<lambda>src acc offset sent y. \<exists>n. \<not> advances src (offset + n * limit)", OF _ assms])
  fix f :: "source \<Rightarrow> payment list \<Rightarrow> nat \<Rightarrow> nat list \<Rightarrow> (nat list \<times> (error + payment list)) option"
  fix src acc offset sent y
  assume IH: "\<And>src acc offset sent y. f src acc offset sent = Some y \<Longrightarrow>
                \<exists>n. \<not> advances src (offset + n * limit)"
  assume body: "(case src limit offset of
        Inl e \<Rightarrow> Some (sent @ [offset], Inl e)
      | Inr response \<Rightarrow>
          (let newPayments = channelPaymentMadeEvents response;
               allPayments' = acc @ newPayments
           in if length newPayments < limit
              then Some (sent @ [offset], Inr allPayments')
              else f src allPayments' (offset + limit) (sent @ [offset]))) = Some y"
  show "\<exists>n. \<not> advances src (offset + n * limit)"
  proof (cases "advances src offset")
    case False
    then have "\<not> advances src (offset + 0 * limit)" by simp
    then show ?thesis by blast
  next
    case True
    then obtain response where r: "src limit offset = Inr response"
      and full: "\<not> length (channelPaymentMadeEvents response) < limit"
      by (auto simp: advances_def split: sum.splits)
    from body r full
    have "f src (acc @ channelPaymentMadeEvents response) (offset + limit) (sent @ [offset]) = Some y"
      by (simp add: Let_def)
    from IH [OF this] obtain n where "\<not> advances src (offset + limit + n * limit)" by blast
    then have "\<not> advances src (offset + Suc n * limit)" by (simp add: add.assoc)
    then show ?thesis by blast
  qed
qed

lemma fetchLoop_Some_iff:
  "(\<exists>y. fetchLoop src acc offset sent = Some y) \<longleftrightarrow> (\<exists>n. \<not> advances src (offset + n * limit))"
proof
  assume "\<exists>y. fetchLoop src acc offset sent = Some y"
  then show "\<exists>n. \<not> advances src (offset + n * limit)" using fetchLoop_Some_stops by blast
next
  assume "\<exists>n. \<not> advances src (offset + n * limit)"
  then obtain n where n: "\<not> advances src (offset + n * limit)" ..
  define m where "m = (LEAST n. \<not> advances src (offset + n * limit))"
  have m: "\<not> advances src (offset + m * limit)" unfolding m_def using n by (rule LeastI)
  have "\<forall>k<m. advances src (offset + k * limit)"
    unfolding m_def using not_less_Least by blast
  from fetchLoop_first_stop [OF m this] show "\<exists>y. fetchLoop src acc offset sent = Some y" by blast
qed

lemma advances_iff: "advances src offset \<longleftrightarrow> \<not> shortPageAt src offset \<and> \<not> failsAt src offset"
  by (simp add: advances_def shortPageAt_def failsAt_def split: sum.splits)

lemma fullPageAt_advances: "fullPageAt src offset \<Longrightarrow> advances src offset"
  by (simp add: advances_def fullPageAt_def split: sum.splits)

text \<open>
  One run of \<open>fetchPayments\<close> in which a request fails: when the first \<open>n\<close> requests
  each let the loop go on and the next request raises \<open>e\<close>, the run has sent \<open>n + 1\<close>
  requests, one per offset and none twice, and its outcome is \<open>e\<close> alone; the events of
  the \<open>n\<close> pages already fetched are not part of it.
\<close>

lemma fetchPayments_failure:
  assumes "src limit (n * limit) = Inl e" and "\<forall>k<n. advances src (k * limit)"
  shows "fetchPayments src = Some (map (\<lambda>k. k * limit) [0..<Suc n], Inl e)"
proof -
  have stop: "\<not> advances src (0 + n * limit)" using assms(1) by (simp add: advances_def)
  have adv: "\<forall>k<n. advances src (0 + k * limit)" using assms(2) by simp
  show ?thesis
    unfolding fetchPayments_def
    using fetchLoop_first_stop [OF stop adv, of "[]" "[]"] assms(1)
    by (simp add: outcomeAt_def)
qed

lemma fetchPayments_brokenSource:
  "brokenSource limit (1 * limit) = Inl (RequestFailed ''Network request failed'') \<and>
   advances brokenSource (0 * limit) \<and>
   fetchPayments brokenSource = Some ([0, 5000], Inl (RequestFailed ''Network request failed''))"
  using fetchPayments_failure [of brokenSource 1 "RequestFailed ''Network request failed''"]
  by (simp add: brokenSource_def advances_def limit_def)

section \<open>Properties of the aggregator\<close>

lemma reduce_snoc:
  "reduce f (xs @ [x]) acc = (case reduce f xs acc of Inl e \<Rightarrow> Inl e | Inr a \<Rightarrow> f a x)"
  by (induction xs arbitrary: acc) (auto split: sum.splits)

lemma set_firstOccurrences [simp]: "set (firstOccurrences xs) = set xs"
  by (induction xs) auto

lemma distinct_firstOccurrences [simp]: "distinct (firstOccurrences xs)"
  by (induction xs) auto

lemma firstOccurrences_snoc:
  "firstOccurrences (xs @ [x]) =
     (if x \<in> set xs then firstOccurrences xs else firstOccurrences xs @ [x])"
proof (induction xs)
  case Nil
  then show ?case by simp
next
  case (Cons a xs)
  then show ?case by auto
qed

lemma map_of_keyed:
  "map_of (map (\<lambda>k. (k, f k)) ks) k = (if k \<in> set ks then Some (f k) else None)"
  by (induction ks) auto

lemma setProperty_new:
  "k \<notin> set ks \<Longrightarrow>
   setProperty (map (\<lambda>k. (k, f k)) ks) k v = map (\<lambda>k. (k, f k)) ks @ [(k, v)]"
  by (induction ks) auto

lemma setProperty_last:
  "k \<notin> fst ` set obj \<Longrightarrow> setProperty (obj @ [(k, w)]) k v = obj @ [(k, v)]"
  by (induction obj) auto

lemma map_of_last:
  "k \<notin> fst ` set obj \<Longrightarrow> map_of (obj @ [(k, v)]) k = Some v"
  by (induction obj) auto

lemma setProperty_old:
  "k \<in> set ks \<Longrightarrow> distinct ks \<Longrightarrow>
   setProperty (map (\<lambda>k. (k, f k)) ks) k v = map (\<lambda>j. (j, if j = k then v else f j)) ks"
  by (induction ks) auto

lemma find_snoc:
  "find P (xs @ [y]) = (case find P xs of None \<Rightarrow> (if P y then Some y else None) | Some x \<Rightarrow> Some x)"
  by (induction xs) auto

lemma find_absent: "(\<forall>x\<in>set xs. \<not> P x) \<Longrightarrow> find P xs = None"
  by (induction xs) auto

lemma find_present: "x \<in> set xs \<Longrightarrow> P x \<Longrightarrow> \<exists>y. find P xs = Some y \<and> P y \<and> y \<in> set xs"
  by (induction xs) auto

lemma aggregateOf_snoc_other:
  "groupKey p \<noteq> k \<Longrightarrow> aggregateOf (ps @ [p]) k = aggregateOf ps k"
  by (simp add: aggregateOf_def find_snoc split: option.splits)

lemma aggregateOf_snoc_old:
  assumes "groupKey p \<in> groupKey ` set ps"
  shows "aggregateOf (ps @ [p]) (groupKey p) =
         (aggregateOf ps (groupKey p))
             \<lparr>totalAmount := totalAmount (aggregateOf ps (groupKey p)) + amountOf p,
              count := count (aggregateOf ps (groupKey p)) + 1\<rparr>"
proof -
  from assms obtain q where "q \<in> set ps" "groupKey q = groupKey p" by auto
  from find_present [of q ps "\<lambda>x. groupKey x = groupKey p", OF this]
  obtain y where "find (\<lambda>x. groupKey x = groupKey p) ps = Some y" by blast
  then show ?thesis by (simp add: aggregateOf_def find_snoc)
qed

lemma aggregateOf_snoc_new:
  assumes "groupKey p \<notin> groupKey ` set ps"
  shows "aggregateOf (ps @ [p]) (groupKey p) =
         \<lparr>channelId = groupKey p, channelTitle = titleOf p, totalAmount = amountOf p, count = 1\<rparr>"
proof -
  have none: "\<forall>x\<in>set ps. \<not> groupKey x = groupKey p" using assms by (metis imageI)
  have "filter (\<lambda>x. groupKey x = groupKey p) ps = []" using none by (simp add: filter_empty_conv)
  with find_absent [OF none] show ?thesis by (simp add: aggregateOf_def find_snoc)
qed

lemma reducer_groupsOf:
  assumes "aggregable p"
  shows "reducer (groupsOf ps) p = Inr (groupsOf (ps @ [p]))"
proof -
  from assms obtain ch n where ch: "payeeChannel p = Some ch"
    and proto: "channel_id ch \<notin> set objectPrototypeKeys"
    and n: "BigInt (amount p) = Inr n"
    by (auto simp: aggregable_def split: option.splits sum.splits)
  let ?k = "channel_id ch"
  let ?ks = "firstOccurrences (map groupKey ps)"
  have key: "groupKey p = ?k" using ch by (simp add: groupKey_def)
  have amt: "amountOf p = n" using n by (simp add: amountOf_def)
  have ttl: "titleOf p = titleOrUnknown (title ch)" using ch by (simp add: titleOf_def)
  show ?thesis
  proof (cases "?k \<in> groupKey ` set ps")
    case True
    then have mem: "?k \<in> set ?ks" by simp
    have get: "getProperty (groupsOf ps) ?k = Own (aggregateOf ps ?k)"
      using mem by (simp add: getProperty_def groupsOf_def map_of_keyed)
    have "reducer (groupsOf ps) p =
          Inr (setProperty (groupsOf ps) ?k
                 ((aggregateOf ps ?k)\<lparr>totalAmount := totalAmount (aggregateOf ps ?k) + n,
                                       count := count (aggregateOf ps ?k) + 1\<rparr>))"
      using ch n get by (simp add: reducer_def Let_def)
    also have "setProperty (groupsOf ps) ?k
                 ((aggregateOf ps ?k)\<lparr>totalAmount := totalAmount (aggregateOf ps ?k) + n,
                                       count := count (aggregateOf ps ?k) + 1\<rparr>)
               = groupsOf (ps @ [p])"
      using True mem key amt
      by (simp add: groupsOf_def setProperty_old firstOccurrences_snoc
            aggregateOf_snoc_other aggregateOf_snoc_old [of p ps, simplified key])
    finally show ?thesis .
  next
    case False
    then have mem: "?k \<notin> set ?ks" by simp
    have get: "getProperty (groupsOf ps) ?k = Undefined"
      using mem proto by (simp add: getProperty_def groupsOf_def map_of_keyed)
    let ?new = "\<lparr>channelId = ?k, channelTitle = titleOrUnknown (title ch), totalAmount = 0, count = 0\<rparr>"
    have acc1: "setProperty (groupsOf ps) ?k ?new = groupsOf ps @ [(?k, ?new)]"
      using mem by (simp add: groupsOf_def setProperty_new)
    have "?k \<notin> fst ` set (groupsOf ps)"
      using mem by (auto simp: groupsOf_def)
    then have "map_of (groupsOf ps @ [(?k, ?new)]) ?k = Some ?new"
      by (rule map_of_last)
    then have get1: "getProperty (groupsOf ps @ [(?k, ?new)]) ?k = Own ?new"
      unfolding getProperty_def by simp
    have "reducer (groupsOf ps) p =
          Inr (setProperty (groupsOf ps @ [(?k, ?new)]) ?k
                 (?new\<lparr>totalAmount := totalAmount ?new + n, count := count ?new + 1\<rparr>))"
      using ch n get acc1 get1 by (simp add: reducer_def Let_def)
    also have "setProperty (groupsOf ps @ [(?k, ?new)]) ?k
                 (?new\<lparr>totalAmount := totalAmount ?new + n, count := count ?new + 1\<rparr>)
               = groupsOf (ps @ [p])"
      using False mem key amt ttl
      by (simp add: setProperty_last groupsOf_def firstOccurrences_snoc image_iff
            aggregateOf_snoc_new [of p ps, simplified key] aggregateOf_snoc_other)
    finally show ?thesis .
  qed
qed


lemma reducer_groupsOf_Inr:
  assumes "reducer (groupsOf ps) p = Inr acc" and "list_all aggregable ps"
  shows "aggregable p"
proof -
  from assms(1) obtain ch where ch: "payeeChannel p = Some ch"
    by (auto simp: reducer_def split: option.splits)
  from assms(1) ch obtain n where n: "BigInt (amount p) = Inr n"
    by (auto simp: reducer_def Let_def split: sum.splits)
  have "channel_id ch \<notin> set objectPrototypeKeys"
  proof
    assume proto: "channel_id ch \<in> set objectPrototypeKeys"
    have "\<forall>q\<in>set ps. groupKey q \<notin> set objectPrototypeKeys"
      using assms(2) by (auto simp: list_all_iff aggregable_def groupKey_def split: option.splits)
    with proto have "channel_id ch \<notin> set (firstOccurrences (map groupKey ps))" by auto
    then have "getProperty (groupsOf ps) (channel_id ch) = Inherited"
      using proto by (simp add: getProperty_def groupsOf_def map_of_keyed)
    with assms(1) ch n show False by (simp add: reducer_def Let_def)
  qed
  with ch n show ?thesis by (simp add: aggregable_def)
qed

lemma reduce_groupsOf:
  "list_all aggregable ps \<Longrightarrow> reduce reducer ps [] = Inr (groupsOf ps)"
proof (induction ps rule: rev_induct)
  case Nil
  then show ?case by (simp add: groupsOf_def)
next
  case (snoc p ps)
  then show ?case by (simp add: reduce_snoc reducer_groupsOf)
qed

lemma reduce_Inr_aggregable:
  "reduce reducer ps [] = Inr acc \<Longrightarrow> list_all aggregable ps"
proof (induction ps arbitrary: acc rule: rev_induct)
  case Nil
  then show ?case by simp
next
  case (snoc p ps)
  from snoc.prems obtain a where a: "reduce reducer ps [] = Inr a" and step: "reducer a p = Inr acc"
    by (auto simp: reduce_snoc split: sum.splits)
  from snoc.IH [OF a] have all: "list_all aggregable ps" .
  with a have "a = groupsOf ps" by (simp add: reduce_groupsOf)
  with step all have "aggregable p" using reducer_groupsOf_Inr by blast
  with all show ?case by simp
qed

lemma insort_key_keyed:
  "insort_key (\<lambda>(k, v). g k) (x, f x) (map (\<lambda>k. (k, f k)) ks) =
   map (\<lambda>k. (k, f k)) (insort_key g x ks)"
  by (induction ks) auto

lemma sort_key_keyed:
  "sort_key (\<lambda>(k, v). g k) (map (\<lambda>k. (k, f k)) ks) = map (\<lambda>k. (k, f k)) (sort_key g ks)"
  by (induction ks) (auto simp: insort_key_keyed)

lemma filter_keyed:
  "filter (\<lambda>(k, v). P k) (map (\<lambda>k. (k, f k)) ks) = map (\<lambda>k. (k, f k)) (filter P ks)"
  by (induction ks) auto

lemma Object_values_groupsOf:
  "Object_values (groupsOf ps) =
   map (aggregateOf ps) (ownKeyOrder (firstOccurrences (map groupKey ps)))"
  by (simp add: Object_values_def ownEntries_def groupsOf_def ownKeyOrder_def
      filter_keyed sort_key_keyed comp_def)

lemma groupedPayments_Inr_iff:
  "groupedPayments (Some ps) = Inr aggs \<longleftrightarrow>
   list_all aggregable ps \<and>
   aggs = map (aggregateOf ps) (ownKeyOrder (firstOccurrences (map groupKey ps)))"
proof (cases "list_all aggregable ps")
  case True
  then show ?thesis
    by (auto simp: groupedPayments_def reduce_groupsOf Object_values_groupsOf)
next
  case False
  then have "\<forall>acc. reduce reducer ps [] \<noteq> Inr acc" using reduce_Inr_aggregable by blast
  with False show ?thesis by (auto simp: groupedPayments_def split: sum.splits)
qed





lemma set_ownKeyOrder [simp]: "set (ownKeyOrder ks) = set ks"
  by (auto simp: ownKeyOrder_def)

lemma distinct_ownKeyOrder: "distinct ks \<Longrightarrow> distinct (ownKeyOrder ks)"
  by (auto simp: ownKeyOrder_def)






section \<open>Claims about the pagination fetcher\<close>

text \<open>
  Claim C4. Starting at offset 0 with page size 5000 and stopping at the first page that is
  strictly shorter than the page size, the fetcher concatenates the pages in order: when
  the source serves \<open>pages 0\<close>, ..., \<open>pages n\<close> at the offsets 0, 5000, ..., of which
  the first \<open>n\<close> are not shorter than 5000 and the last is, the fetch sends exactly the
  \<open>n + 1\<close> requests of these offsets and returns the concatenation of the pages. In
  particular, a source that serves pages of sizes 5000, 5000 and 3 at offsets 0, 5000 and
  10000 yields all 10003 events in exactly three requests; when the third page is empty
  the fetch still succeeds, with the 10000 events of the first two pages: the empty page
  adds nothing and is no error.
\<close>

theorem fetchPayments_pages:
  "((\<forall>k\<le>n. src limit (k * limit) = Inr \<lparr>channelPaymentMadeEvents = pages k\<rparr>) \<and>
    (\<forall>k<n. \<not> length (pages k) < limit) \<and> length (pages n) < limit \<longrightarrow>
      fetchPayments src =
        Some (map (\<lambda>k. k * limit) [0..<Suc n], Inr (concat (map pages [0..<Suc n])))) \<and>
   (src limit 0 = Inr \<lparr>channelPaymentMadeEvents = p0\<rparr> \<and>
    src limit 5000 = Inr \<lparr>channelPaymentMadeEvents = p1\<rparr> \<and>
    src limit 10000 = Inr \<lparr>channelPaymentMadeEvents = p2\<rparr> \<and>
    length p0 = 5000 \<and> length p1 = 5000 \<and> (length p2 = 3 \<or> length p2 = 0) \<longrightarrow>
      fetchPayments src = Some ([0, 5000, 10000], Inr (p0 @ p1 @ p2)) \<and>
      length (p0 @ p1 @ p2) = 10000 + length p2)"
proof (intro conjI impI)
  assume h: "(\<forall>k\<le>n. src limit (k * limit) = Inr \<lparr>channelPaymentMadeEvents = pages k\<rparr>) \<and>
    (\<forall>k<n. \<not> length (pages k) < limit) \<and> length (pages n) < limit"
  then have served: "\<And>k. k \<le> n \<Longrightarrow> src limit (k * limit) = Inr \<lparr>channelPaymentMadeEvents = pages k\<rparr>"
    and full: "\<And>k. k < n \<Longrightarrow> \<not> length (pages k) < limit"
    and short: "length (pages n) < limit"
    by auto
  have adv: "\<forall>k<n. advances src (0 + k * limit)"
    using served full by (simp add: advances_def)
  have stop: "\<not> advances src (0 + n * limit)"
    using served [of n] short by (simp add: advances_def)
  have pg: "map (\<lambda>k. pageAt src (k * limit)) [0..<n] = map pages [0..<n]"
    using served by (simp add: pageAt_def)
  have out: "outcomeAt src acc (n * limit) = Inr (acc @ pages n)" for acc
    using served [of n] by (simp add: outcomeAt_def)
  show "fetchPayments src =
        Some (map (\<lambda>k. k * limit) [0..<Suc n], Inr (concat (map pages [0..<Suc n])))"
    unfolding fetchPayments_def
    using fetchLoop_first_stop [OF stop adv, of "[]" "[]"]
    by (simp add: pg out)
next
  assume h: "src limit 0 = Inr \<lparr>channelPaymentMadeEvents = p0\<rparr> \<and>
    src limit 5000 = Inr \<lparr>channelPaymentMadeEvents = p1\<rparr> \<and>
    src limit 10000 = Inr \<lparr>channelPaymentMadeEvents = p2\<rparr> \<and>
    length p0 = 5000 \<and> length p1 = 5000 \<and> (length p2 = 3 \<or> length p2 = 0)"
  have a0: "advances src 0" and a1: "advances src 5000" and s2: "\<not> advances src 10000"
    using h by (auto simp: advances_def limit_def)
  have pg: "pageAt src 0 = p0" "pageAt src 5000 = p1"
    using h by (simp_all add: pageAt_def)
  have "fetchLoop src [] 0 [] = fetchLoop src p0 5000 [0]"
    using fetchLoop_step [OF a0, of "[]" "[]"] pg by (simp add: limit_def)
  also have "\<dots> = fetchLoop src (p0 @ p1) 10000 [0, 5000]"
    using fetchLoop_step [OF a1, of p0 "[0]"] pg by (simp add: limit_def)
  also have "\<dots> = Some ([0, 5000, 10000], Inr (p0 @ p1 @ p2))"
    using fetchLoop_stop [OF s2, of "p0 @ p1" "[0, 5000]"] h by (simp add: outcomeAt_def)
  finally show "fetchPayments src = Some ([0, 5000, 10000], Inr (p0 @ p1 @ p2))"
    by (simp add: fetchPayments_def)
  show "length (p0 @ p1 @ p2) = 10000 + length p2" using h by simp
qed

theorem fetchPayments_pages_witness:
  "fetchPayments (pagedSource
       [replicate 5000 somePayment, replicate 5000 somePayment, replicate 3 somePayment])
     = Some ([0, 5000, 10000],
         Inr (replicate 5000 somePayment @ replicate 5000 somePayment @ replicate 3 somePayment))
   \<and> length (replicate 5000 somePayment @ replicate 5000 somePayment @ replicate 3 somePayment)
       = 10003
   \<and> fetchPayments (pagedSource [replicate 5000 somePayment, replicate 5000 somePayment, []])
     = Some ([0, 5000, 10000],
         Inr (replicate 5000 somePayment @ replicate 5000 somePayment @ []))
   \<and> length (replicate 5000 somePayment @ replicate 5000 somePayment @ []) = 10000
   \<and> fetchPayments (pagedSource [replicate 3 somePayment])
     = Some ([0], Inr (replicate 3 somePayment))
   \<and> fetchPayments (pagedSource [replicate 5000 somePayment, replicate 3 somePayment])
     = Some ([0, 5000], Inr (replicate 5000 somePayment @ replicate 3 somePayment))"
proof -
  let ?A = "replicate 5000 somePayment" and ?B = "replicate 3 somePayment"
  have three: "fetchPayments (pagedSource [?A, ?A, ?B]) = Some ([0, 5000, 10000], Inr (?A @ ?A @ ?B))
      \<and> length (?A @ ?A @ ?B) = 10003"
    using fetchPayments_pages [of 0 "pagedSource [?A, ?A, ?B]" "\<lambda>k. []" ?A ?A ?B]
    by (simp add: pagedSource_def limit_def)
  have empty: "fetchPayments (pagedSource [?A, ?A, []]) = Some ([0, 5000, 10000], Inr (?A @ ?A @ []))
      \<and> length (?A @ ?A @ []) = 10000"
    using fetchPayments_pages [of 0 "pagedSource [?A, ?A, []]" "\<lambda>k. []" ?A ?A "[]"]
    by (simp add: pagedSource_def limit_def)
  have one: "fetchPayments (pagedSource [?B]) = Some ([0], Inr ?B)"
    using fetchPayments_pages [of 0 "pagedSource [?B]" "\<lambda>k. ?B" "[]" "[]" "[]"]
    by (simp add: pagedSource_def limit_def)
  have "\<forall>k\<le>1. pagedSource [?A, ?B] limit (k * limit) =
          Inr \<lparr>channelPaymentMadeEvents = (if k = 0 then ?A else ?B)\<rparr>"
    by (auto simp: pagedSource_def limit_def le_Suc_eq)
  then have two: "fetchPayments (pagedSource [?A, ?B]) = Some ([0, 5000], Inr (?A @ ?B))"
    using fetchPayments_pages [of 1 "pagedSource [?A, ?B]" "\<lambda>k. if k = 0 then ?A else ?B" "[]" "[]" "[]"]
    by (simp add: limit_def)
  from three empty one two show ?thesis by simp
qed

text \<open>
  Claim C9, as stated: the loop terminates if and only if the source returns, at some offset
  that is a multiple of 5000, a page of fewer than 5000 records. It fails at a source that
  rejects the first request: the loop ends at once, by raising, and no page is ever returned.
\<close>

theorem fetchPayments_terminates_counterexample:
  "fetchPayments failingSource = Some ([0], Inl (RequestFailed ''Network request failed'')) \<and>
   \<not> (\<exists>k. shortPageAt failingSource (k * limit))"
proof -
  have "\<not> advances failingSource 0" by (simp add: advances_def failingSource_def)
  from fetchLoop_stop [OF this, of "[]" "[]"] show ?thesis
    by (simp add: fetchPayments_def outcomeAt_def failingSource_def shortPageAt_def)
qed

text \<open>
  Claim C9, amended. The loop ends if and only if, at some offset that is a multiple of 5000,
  the source returns a page of fewer than 5000 records or the request fails. For a source
  that answers every such offset with a page of exactly 5000 records the loop never ends.
\<close>

theorem fetchPayments_terminates_iff:
  "((\<exists>y. fetchPayments src = Some y) \<longleftrightarrow>
      (\<exists>k. shortPageAt src (k * limit) \<or> failsAt src (k * limit))) \<and>
   ((\<forall>k. fullPageAt src (k * limit)) \<longrightarrow> fetchPayments src = None)"
proof
  show "(\<exists>y. fetchPayments src = Some y) \<longleftrightarrow>
      (\<exists>k. shortPageAt src (k * limit) \<or> failsAt src (k * limit))"
    unfolding fetchPayments_def using fetchLoop_Some_iff [of src "[]" 0 "[]"]
    by (simp add: advances_iff)
next
  show "(\<forall>k. fullPageAt src (k * limit)) \<longrightarrow> fetchPayments src = None"
  proof
    assume "\<forall>k. fullPageAt src (k * limit)"
    then have "\<forall>n. advances src (0 + n * limit)" by (simp add: fullPageAt_advances)
    with fetchLoop_Some_iff [of src "[]" 0 "[]"] show "fetchPayments src = None"
      unfolding fetchPayments_def by (cases "fetchLoop src [] 0 []") auto
  qed
qed

theorem fetchPayments_terminates_iff_witness:
  "(\<forall>k. fullPageAt endlessSource (k * limit)) \<and> fetchPayments endlessSource = None"
  using fetchPayments_terminates_iff [of endlessSource]
  by (simp add: fullPageAt_def endlessSource_def)

section \<open>Claims about the aggregator\<close>




text \<open>
  Claim C2, as stated: aggregation never fails on an event whose channel reference is null,
  the event going to an "Unknown" bucket. It fails on the collection of one such event: the
  aggregation raises TypeError and produces nothing.
\<close>

theorem groupedPayments_null_channel_counterexample:
  "payeeChannel orphanPayment = None \<and> groupedPayments (Some [orphanPayment]) = Inl TypeError"
  by code_simp

text \<open>
  Claim C2, amended. Aggregation raises on every collection that holds an event whose
  channel reference is null, and produces no aggregate then. It succeeds exactly on the
  collections whose events all have a channel reference, a channel id that is not the name
  of a property inherited from \<open>Object.prototype\<close>, and an amount that \<open>BigInt\<close> parses.
\<close>

theorem groupedPayments_succeeds_iff:
  "((\<exists>aggs. groupedPayments (Some events) = Inr aggs) \<longleftrightarrow> list_all aggregable events) \<and>
   ((\<exists>p\<in>set events. payeeChannel p = None) \<longrightarrow> (\<exists>e. groupedPayments (Some events) = Inl e))"
proof
  show iff: "(\<exists>aggs. groupedPayments (Some events) = Inr aggs) \<longleftrightarrow> list_all aggregable events"
    by (simp add: groupedPayments_Inr_iff)
  show "(\<exists>p\<in>set events. payeeChannel p = None) \<longrightarrow> (\<exists>e. groupedPayments (Some events) = Inl e)"
  proof
    assume "\<exists>p\<in>set events. payeeChannel p = None"
    then obtain p where p: "p \<in> set events" "payeeChannel p = None" by blast
    then have "\<not> aggregable p" by (simp add: aggregable_def)
    with p have "\<not> list_all aggregable events"
      by (auto simp: list_all_iff)
    with iff have "\<forall>aggs. groupedPayments (Some events) \<noteq> Inr aggs" by blast
    then show "\<exists>e. groupedPayments (Some events) = Inl e"
      by (cases "groupedPayments (Some events)") auto
  qed
qed

theorem groupedPayments_succeeds_iff_witness:
  "orphanPayment \<in> set (sampleEvents @ [orphanPayment]) \<and>
   payeeChannel orphanPayment = None \<and>
   (\<exists>e. groupedPayments (Some (sampleEvents @ [orphanPayment])) = Inl e) \<and>
   list_all aggregable sampleEvents \<and>
   (\<exists>aggs. groupedPayments (Some sampleEvents) = Inr aggs)"
proof -
  have "payeeChannel orphanPayment = None" by code_simp
  moreover have "list_all aggregable sampleEvents" by code_simp
  ultimately show ?thesis
    using groupedPayments_succeeds_iff [of "sampleEvents @ [orphanPayment]"]
      groupedPayments_succeeds_iff [of sampleEvents]
    by auto
qed

text \<open>
  Claim C5, as stated: the aggregates come in the order in which their channel ids first
  occur among the events. It fails for events of channel "2" followed by events of channel
  "1": the aggregate of "1" comes first.
\<close>

theorem groupedPayments_order_counterexample:
  "groupedPayments (Some [paymentTo ''2'' None ''5'', paymentTo ''1'' None ''7'']) =
     Inr [\<lparr>channelId = ''1'', channelTitle = ''Unknown'', totalAmount = 7, count = 1\<rparr>,
          \<lparr>channelId = ''2'', channelTitle = ''Unknown'', totalAmount = 5, count = 1\<rparr>] \<and>
   firstOccurrences (map groupKey [paymentTo ''2'' None ''5'', paymentTo ''1'' None ''7'']) =
     [''2'', ''1'']"
  by code_simp

text \<open>
  Claim C5, amended. There is exactly one aggregate for each distinct channel id observed.
  The aggregates whose channel id is an array index (a canonical decimal numeral below
  \<open>2^32 - 1\<close>) come first, in ascending numeric order; the others follow in the order of
  the first occurrence of their channel id among the events. When no channel id is an
  array index, the order is the order of first occurrence.
\<close>

theorem groupedPayments_order:
  assumes "groupedPayments (Some events) = Inr aggs"
  shows "map channelId aggs =
           sort_key (digitsValue 10)
             (filter isArrayIndex (firstOccurrences (map groupKey events))) @
           filter (\<lambda>k. \<not> isArrayIndex k) (firstOccurrences (map groupKey events)) \<and>
         distinct (map channelId aggs) \<and>
         set (map channelId aggs) = groupKey ` set events \<and>
         (list_all (\<lambda>p. \<not> isArrayIndex (groupKey p)) events \<longrightarrow>
            map channelId aggs = firstOccurrences (map groupKey events))"
proof -
  let ?ks = "firstOccurrences (map groupKey events)"
  from assms have aggs: "aggs = map (aggregateOf events) (ownKeyOrder ?ks)"
    by (simp add: groupedPayments_Inr_iff)
  have ids: "map channelId aggs = ownKeyOrder ?ks"
    by (simp add: aggs aggregateOf_def comp_def)
  have none: "list_all (\<lambda>p. \<not> isArrayIndex (groupKey p)) events \<Longrightarrow> ownKeyOrder ?ks = ?ks"
    by (simp add: ownKeyOrder_def list_all_iff)
  show ?thesis
    using none distinct_ownKeyOrder [of ?ks]
    by (simp add: ids) (simp add: ownKeyOrder_def)
qed

theorem groupedPayments_order_witness:
  "groupedPayments (Some sampleEvents) = Inr sampleAggregates \<and>
   map channelId sampleAggregates = [''1'', ''2'', ''abc''] \<and>
   firstOccurrences (map groupKey sampleEvents) = [''2'', ''abc'', ''1''] \<and>
   distinct (map channelId sampleAggregates)"
proof -
  have "groupedPayments (Some sampleEvents) = Inr sampleAggregates" by code_simp
  moreover have "map channelId sampleAggregates = [''1'', ''2'', ''abc'']" by code_simp
  moreover have "firstOccurrences (map groupKey sampleEvents) = [''2'', ''abc'', ''1'']"
    by code_simp
  ultimately show ?thesis
    using groupedPayments_order [of sampleEvents sampleAggregates] by simp
qed

text \<open>
  Claim C10. The \<open>channelTitle\<close> of each aggregate is the title carried by the first event
  of its channel id, or "Unknown" when that title is absent or empty; the titles of later
  events of the same channel id play no part.
\<close>

theorem groupedPayments_title:
  assumes "groupedPayments (Some events) = Inr aggs" and "a \<in> set aggs"
  shows "\<exists>p ch. find (\<lambda>q. groupKey q = channelId a) events = Some p \<and>
                payeeChannel p = Some ch \<and> channel_id ch = channelId a \<and>
                channelTitle a =
                  (case title ch of
                     None \<Rightarrow> ''Unknown''
                   | Some t \<Rightarrow> if t = [] then ''Unknown'' else t)"
proof -
  let ?ks = "firstOccurrences (map groupKey events)"
  from assms(1) have all: "list_all aggregable events"
    and aggs: "aggs = map (aggregateOf events) (ownKeyOrder ?ks)"
    by (simp_all add: groupedPayments_Inr_iff)
  from assms(2) aggs obtain k where k: "k \<in> groupKey ` set events" and a: "a = aggregateOf events k"
    by auto
  from k obtain q where "q \<in> set events" "groupKey q = k" by auto
  from find_present [of q events "\<lambda>x. groupKey x = k", OF this]
  obtain p where p: "find (\<lambda>x. groupKey x = k) events = Some p"
    and pk: "groupKey p = k" and pin: "p \<in> set events" by blast
  from all pin obtain ch where ch: "payeeChannel p = Some ch"
    by (auto simp: list_all_iff aggregable_def split: option.splits)
  have "channelId a = k" by (simp add: a aggregateOf_def)
  moreover have "channelTitle a = titleOrUnknown (title ch)"
    using p ch by (simp add: a aggregateOf_def titleOf_def)
  moreover have "channel_id ch = k" using pk ch by (simp add: groupKey_def)
  ultimately show ?thesis using p ch by (simp add: titleOrUnknown_def)
qed

theorem groupedPayments_title_witness:
  "groupedPayments (Some sampleEvents) = Inr sampleAggregates \<and>
   \<lparr>channelId = ''2'', channelTitle = ''two'', totalAmount = 105, count = 2\<rparr>
     \<in> set sampleAggregates \<and>
   find (\<lambda>q. groupKey q = ''2'') sampleEvents = Some (paymentTo ''2'' (Some ''two'') ''5'') \<and>
   \<lparr>channelId = ''abc'', channelTitle = ''Unknown'', totalAmount = 18446744073709551616,
     count = 1\<rparr> \<in> set sampleAggregates \<and>
   find (\<lambda>q. groupKey q = ''abc'') sampleEvents =
     Some (paymentTo ''abc'' (Some []) ''18446744073709551616'')"
proof -
  have "groupedPayments (Some sampleEvents) = Inr sampleAggregates" by code_simp
  moreover have
    "\<lparr>channelId = ''2'', channelTitle = ''two'', totalAmount = 105, count = 2\<rparr>
       \<in> set sampleAggregates"
    by (simp add: sampleAggregates_def)
  moreover have
    "\<lparr>channelId = ''abc'', channelTitle = ''Unknown'', totalAmount = 18446744073709551616,
       count = 1\<rparr> \<in> set sampleAggregates"
    by (simp add: sampleAggregates_def)
  moreover have
    "find (\<lambda>q. groupKey q = ''2'') sampleEvents = Some (paymentTo ''2'' (Some ''two'') ''5'')"
    by code_simp
  moreover have
    "find (\<lambda>q. groupKey q = ''abc'') sampleEvents =
       Some (paymentTo ''abc'' (Some []) ''18446744073709551616'')"
    by code_simp
  ultimately show ?thesis
    using groupedPayments_title [of sampleEvents sampleAggregates
        "\<lparr>channelId = ''2'', channelTitle = ''two'', totalAmount = 105, count = 2\<rparr>"]
    by simp
qed

section \<open>Claims about the table\<close>

text \<open>
  Claim C7, as stated: before any click on a header the rows are sorted by total amount,
  descending, in grouped mode and by amount, descending, in flat mode. It fails in flat
  mode: the sort state names \<open>totalAmount\<close>, which is no column of the flat column set, and
  it does not name the \<open>amount\<close> column.
\<close>

theorem initialSorting_flat_counterexample:
  "map sort_id initialSorting = [''totalAmount''] \<and>
   ''totalAmount'' \<notin> set (map accessorKey (columns False)) \<and>
   ''amount'' \<in> set (map accessorKey (columns False)) \<and>
   sortedColumns False initialSorting = []"
  by (simp add: initialSorting_def columns_def sortedColumns_def columnId_def)

text \<open>
  Claim C7, amended. The table is created with one sort entry, \<open>totalAmount\<close> descending,
  whatever the mode. In grouped mode the entry names the Total Amount column, which is so
  the default sort; in flat mode it names no column, and no sort by amount is set up.
\<close>

theorem initialSorting_columns:
  "initialSorting = [\<lparr>sort_id = ''totalAmount'', desc = True\<rparr>] \<and>
   sortedColumns True initialSorting =
     [(\<lparr>header = ''Total Amount'', accessorKey = ''totalAmount''\<rparr>, True)] \<and>
   sortedColumns False initialSorting = []"
  by (simp add: initialSorting_def columns_def sortedColumns_def columnId_def)

end
